theory Spec2Isabelle
  imports Main "HOL-Library.Word"
begin

section \<open>The transaction handle of tx.go\<close>

text \<open>
  The file tx.go of package btcutil wraps a decoded bitcoin transaction
  (\<^verbatim>\<open>*btcwire.MsgTx\<close>), memoizes its hash on first access and carries the
  position of the transaction within a block.  Package btcwire (the codec
  \<^verbatim>\<open>MsgTx.Deserialize\<close> and the hasher \<^verbatim>\<open>MsgTx.TxSha\<close>) is an external
  collaborator: its record type \<open>'m\<close>, its hash type \<open>'h\<close>, its error type
  \<open>'e\<close> and its two operations are parameters of the model.
\<close>

subsection \<open>Values, pointers and memory\<close>

type_synonym byte = "8 word"

text \<open>Go's \<^verbatim>\<open>int\<close> on a 64-bit target.\<close>

type_synonym go_int = "64 word"

type_synonym addr = nat

text \<open>A Go pointer: \<open>None\<close> is \<^verbatim>\<open>nil\<close>, \<open>Some a\<close> points to the object at address \<open>a\<close>.\<close>

type_synonym ptr = "addr option"

text \<open>
  A Go byte slice, by its contents: \<open>None\<close> is the \<^verbatim>\<open>nil\<close> slice (the zero
  value of a slice field that was never assigned).
\<close>

type_synonym bytes = "byte list option"

datatype fault = NilPointerDereference | UnallocatedAddress

text \<open>
  The objects that the handle points to live in memory, so that code outside
  the handle can change them: the \<^verbatim>\<open>btcwire.MsgTx\<close> objects and the
  \<^verbatim>\<open>btcwire.ShaHash\<close> objects allocated so far, each addressed by its position.
  \<open>txShaCalls\<close> counts the calls of the external \<^verbatim>\<open>MsgTx.TxSha\<close> that have
  returned (the counter of a call-counting stub).
\<close>

record ('m, 'h) memory =
  msgTxs :: "'m list"
  shaHashes :: "'h list"
  txShaCalls :: nat

text \<open>
  Reading through a pointer.  Go panics on \<^verbatim>\<open>nil\<close>.  A Go pointer never names
  an object that was not allocated; the model reports that case as a fault of
  its own instead of inventing a value.
\<close>

definition load :: "'a list \<Rightarrow> ptr \<Rightarrow> fault + 'a" where
  "load objs p =
     (case p of
        None \<Rightarrow> Inl NilPointerDereference
      | Some a \<Rightarrow> if a < length objs then Inr (objs ! a) else Inl UnallocatedAddress)"

text \<open>A variable that escapes its function is allocated at a fresh address.\<close>

definition alloc :: "'a list \<Rightarrow> 'a \<Rightarrow> addr \<times> 'a list" where
  "alloc objs x = (length objs, objs @ [x])"

subsection \<open>The handle\<close>

text \<open>\<^verbatim>\<open>const TxIndexUnknown = -1\<close>\<close>

definition TxIndexUnknown :: go_int where
  "TxIndexUnknown = - 1"

text \<open>
  \<^verbatim>\<open>type Tx struct { msgTx *btcwire.MsgTx; serializedTx []byte;
                    txSha *btcwire.ShaHash; txIndex int }\<close>
  A handle is a non-nil \<^verbatim>\<open>*Tx\<close>; the methods below take the struct it points
  to and return the struct as they leave it.
\<close>

record Tx =
  msgTx :: ptr
  serializedTx :: bytes
  txSha :: ptr
  txIndex :: go_int

text \<open>\<^verbatim>\<open>func (t *Tx) MsgTx() *btcwire.MsgTx { return t.msgTx }\<close>\<close>

definition MsgTx :: "Tx \<Rightarrow> ptr" where
  "MsgTx t = msgTx t"

text \<open>
  The external method \<^verbatim>\<open>func (msg *MsgTx) TxSha() (ShaHash, error)\<close>, as its
  caller sees it: given the records in memory and its receiver, a pointer that
  may be \<^verbatim>\<open>nil\<close>, it panics or returns a hash and an optional error.  What it
  does on which receiver is for btcwire to decide.
\<close>

type_synonym ('m, 'h, 'e) hasher = "'m list \<Rightarrow> ptr \<Rightarrow> fault + ('h \<times> 'e option)"

text \<open>
  \<^verbatim>\<open>func (t *Tx) Sha() *btcwire.ShaHash {
      if t.txSha != nil { return t.txSha }
      sha, _ := t.msgTx.TxSha()
      t.txSha = &sha
      return &sha }\<close>
  \<open>Sha\<close> calls the hasher on the receiver \<open>t.msgTx\<close> as it is, without a look
  at the pointer; a panic of the hasher is a panic of \<open>Sha\<close>.  It drops the
  error.  The local \<open>sha\<close> escapes through \<open>&sha\<close> and is allocated; the cache
  and the result are the same pointer.
\<close>

definition Sha ::
  "('m, 'h, 'e) hasher \<Rightarrow> ('m, 'h) memory \<Rightarrow> Tx \<Rightarrow> fault + (ptr \<times> Tx \<times> ('m, 'h) memory)"
where
  "Sha TxSha s t =
     (if txSha t \<noteq> None then Inr (txSha t, t, s)
      else
        (case TxSha (msgTxs s) (msgTx t) of
           Inl f \<Rightarrow> Inl f
         | Inr (sha, err) \<Rightarrow>
             (let (a, hs) = alloc (shaHashes s) sha
              in Inr (Some a, t\<lparr>txSha := Some a\<rparr>,
                      s\<lparr>shaHashes := hs, txShaCalls := Suc (txShaCalls s)\<rparr>))))"

text \<open>
  A hasher that reads the record through its receiver and computes hash and
  error from the record alone, by \<open>H\<close>: the \<^verbatim>\<open>hash(Record) -> HashValue\<close> of
  the external interface.  On a \<^verbatim>\<open>nil\<close> receiver the read is a nil pointer
  dereference.
\<close>

definition reading :: "('m \<Rightarrow> 'h \<times> 'e option) \<Rightarrow> ('m, 'h, 'e) hasher" where
  "reading H objs p = (case load objs p of Inl f \<Rightarrow> Inl f | Inr m \<Rightarrow> Inr (H m))"

text \<open>\<^verbatim>\<open>func (t *Tx) Index() int { return t.txIndex }\<close>\<close>

definition Index :: "Tx \<Rightarrow> go_int" where
  "Index t = txIndex t"

text \<open>\<^verbatim>\<open>func (t *Tx) SetIndex(index int) { t.txIndex = index }\<close>\<close>

definition SetIndex :: "Tx \<Rightarrow> go_int \<Rightarrow> Tx" where
  "SetIndex t index = t\<lparr>txIndex := index\<rparr>"

text \<open>
  \<^verbatim>\<open>func NewTx(msgTx *btcwire.MsgTx) *Tx {
      return &Tx{ msgTx: msgTx, txIndex: TxIndexUnknown } }\<close>
  The fields that the literal leaves out have their zero value \<^verbatim>\<open>nil\<close>.
\<close>

definition NewTx :: "ptr \<Rightarrow> Tx" where
  "NewTx p = \<lparr>msgTx = p, serializedTx = None, txSha = None, txIndex = TxIndexUnknown\<rparr>"

text \<open>\<^verbatim>\<open>bytes.NewBuffer(serializedTx)\<close>: the bytes a reader gets; none from a nil slice.\<close>

definition NewBuffer :: "bytes \<Rightarrow> byte list" where
  "NewBuffer b = (case b of None \<Rightarrow> [] | Some bs \<Rightarrow> bs)"

text \<open>
  \<^verbatim>\<open>func NewTxFromBytes(serializedTx []byte) (*Tx, error) {
      var msgTx btcwire.MsgTx
      br := bytes.NewBuffer(serializedTx)
      err := msgTx.Deserialize(br)
      if err != nil { return nil, err }
      t := Tx{ msgTx: &msgTx, serializedTx: serializedTx, txIndex: TxIndexUnknown }
      return &t, nil }\<close>
  \<open>Deserialize\<close> is the external codec: from the bytes it reads, an error or
  the record it has filled in.  The result \<^verbatim>\<open>(nil, err)\<close> is \<open>Inl err\<close>, the
  result \<^verbatim>\<open>(&t, nil)\<close> is \<open>Inr\<close> of the new struct and the memory that holds
  the decoded record.  On failure the local record is unreachable and memory
  is as before.
\<close>

definition NewTxFromBytes ::
  "(byte list \<Rightarrow> 'e + 'm) \<Rightarrow> ('m, 'h) memory \<Rightarrow> bytes \<Rightarrow> 'e + (Tx \<times> ('m, 'h) memory)"
where
  "NewTxFromBytes Deserialize s serializedTx' =
     (case Deserialize (NewBuffer serializedTx') of
        Inl err \<Rightarrow> Inl err
      | Inr m \<Rightarrow>
          (let (a, ms) = alloc (msgTxs s) m
           in Inr (\<lparr>msgTx = Some a, serializedTx = serializedTx', txSha = None,
                    txIndex = TxIndexUnknown\<rparr>,
                   s\<lparr>msgTxs := ms\<rparr>)))"

subsection \<open>Clients of a handle\<close>

text \<open>
  What a client can do with one handle: call one of its four methods, or
  write to a \<^verbatim>\<open>btcwire.MsgTx\<close> object in memory (through the pointer that
  \<open>MsgTx\<close> returns, or one it kept from before \<open>NewTx\<close>).  The fields of
  \<^verbatim>\<open>Tx\<close> are unexported, so a client outside the package reaches them through
  the methods only.  A write to an address that holds no object changes
  nothing.  The hash objects are written by \<open>Sha\<close> alone: writes through the
  pointer that \<open>Sha\<close> returns are not among these steps.
\<close>

datatype 'm call =
  CallMsgTx | CallSha | CallIndex | CallSetIndex go_int | ExternalWrite addr 'm

datatype ret = RetPtr ptr | RetInt go_int | RetUnit

fun step ::
  "('m, 'h, 'e) hasher \<Rightarrow> ('m, 'h) memory \<Rightarrow> Tx \<Rightarrow> 'm call
     \<Rightarrow> fault + (ret \<times> Tx \<times> ('m, 'h) memory)"
where
  "step TxSha s t CallMsgTx = Inr (RetPtr (MsgTx t), t, s)"
| "step TxSha s t CallSha =
     (case Sha TxSha s t of
        Inl f \<Rightarrow> Inl f
      | Inr (p, t', s') \<Rightarrow> Inr (RetPtr p, t', s'))"
| "step TxSha s t CallIndex = Inr (RetInt (Index t), t, s)"
| "step TxSha s t (CallSetIndex i) = Inr (RetUnit, SetIndex t i, s)"
| "step TxSha s t (ExternalWrite a m) = Inr (RetUnit, t, s\<lparr>msgTxs := (msgTxs s)[a := m]\<rparr>)"

text \<open>A sequence of such steps, stopping at the first panic; the results in order.\<close>

fun run ::
  "('m, 'h, 'e) hasher \<Rightarrow> ('m, 'h) memory \<Rightarrow> Tx \<Rightarrow> 'm call list
     \<Rightarrow> fault + (ret list \<times> Tx \<times> ('m, 'h) memory)"
where
  "run TxSha s t [] = Inr ([], t, s)"
| "run TxSha s t (c # cs) =
     (case step TxSha s t c of
        Inl f \<Rightarrow> Inl f
      | Inr (r, t', s') \<Rightarrow>
          (case run TxSha s' t' cs of
             Inl f \<Rightarrow> Inl f
           | Inr (rs, t'', s'') \<Rightarrow> Inr (r # rs, t'', s'')))"

text \<open>The handle wraps a record: its pointer names an allocated \<^verbatim>\<open>btcwire.MsgTx\<close>.\<close>

definition has_record :: "('m, 'h) memory \<Rightarrow> Tx \<Rightarrow> bool" where
  "has_record s t = (case msgTx t of None \<Rightarrow> False | Some a \<Rightarrow> a < length (msgTxs s))"

subsection \<open>A concrete codec and hasher\<close>

text \<open>
  Stand-ins for the external collaborators, for the concrete instances below:
  records and hashes are numbers, the codec accepts two bytes or more, one
  hasher reports no error and one always reports an error (both are used
  through \<open>reading\<close>), and one returns the same hash without a look at its
  receiver.
\<close>

definition stub_TxSha :: "nat \<Rightarrow> nat \<times> string option" where
  "stub_TxSha m = (2 * m, None)"

definition failing_TxSha :: "nat \<Rightarrow> nat \<times> string option" where
  "failing_TxSha m = (2 * m, Some ''out of memory'')"

definition constant_TxSha :: "(nat, nat, string) hasher" where
  "constant_TxSha objs p = Inr (0, None)"

definition stub_Deserialize :: "byte list \<Rightarrow> string + nat" where
  "stub_Deserialize bs = (if length bs < 2 then Inl ''unexpected EOF'' else Inr (length bs))"

definition stub_memory :: "(nat, nat) memory" where
  "stub_memory = \<lparr>msgTxs = [5], shaHashes = [], txShaCalls = 0\<rparr>"

section \<open>The methods, step by step\<close>

subsection \<open>The hash accessor\<close>

lemma Sha_cached: "txSha t = Some p \<Longrightarrow> Sha TxSha s t = Inr (Some p, t, s)"
  by (simp add: Sha_def)

lemma Sha_first:
  assumes "txSha t = None" and "TxSha (msgTxs s) (msgTx t) = Inr (h, e)"
  shows "Sha TxSha s t =
           Inr (Some (length (shaHashes s)),
                t\<lparr>txSha := Some (length (shaHashes s))\<rparr>,
                s\<lparr>shaHashes := shaHashes s @ [h], txShaCalls := Suc (txShaCalls s)\<rparr>)"
  using assms by (simp add: Sha_def alloc_def)

lemma Sha_panic:
  assumes "txSha t = None" and "TxSha (msgTxs s) (msgTx t) = Inl f"
  shows "Sha TxSha s t = Inl f"
  using assms by (simp add: Sha_def)

lemma Sha_Inr_cases:
  assumes "Sha TxSha s t = Inr (p, t', s')"
  shows "(txSha t \<noteq> None \<and> p = txSha t \<and> t' = t \<and> s' = s)
       \<or> (txSha t = None \<and> (\<exists>h e. TxSha (msgTxs s) (msgTx t) = Inr (h, e)
            \<and> p = Some (length (shaHashes s))
            \<and> t' = t\<lparr>txSha := p\<rparr>
            \<and> s' = s\<lparr>shaHashes := shaHashes s @ [h],
                     txShaCalls := Suc (txShaCalls s)\<rparr>))"
  using assms
  by (auto simp: Sha_def alloc_def split: if_splits sum.splits)

subsection \<open>Hashers that read their receiver\<close>

lemma reading_record:
  "a < length objs \<Longrightarrow> reading H objs (Some a) = Inr (H (objs ! a))"
  by (simp add: reading_def load_def)

lemma reading_nil: "reading H objs None = Inl NilPointerDereference"
  by (simp add: reading_def load_def)

lemma reading_Inl:
  "(reading H objs p = Inl NilPointerDereference) = (p = None)"
  by (simp add: reading_def load_def split: option.splits)

text \<open>
  With such a hasher \<open>Sha\<close> reads the record, faults where the read faults,
  and otherwise caches the first component of \<open>H\<close>.
\<close>

lemma Sha_reading:
  "Sha (reading H) s t =
     (if txSha t \<noteq> None then Inr (txSha t, t, s)
      else
        (case load (msgTxs s) (msgTx t) of
           Inl f \<Rightarrow> Inl f
         | Inr m \<Rightarrow>
             (let sha = fst (H m);
                  (a, hs) = alloc (shaHashes s) sha
              in Inr (Some a, t\<lparr>txSha := Some a\<rparr>,
                      s\<lparr>shaHashes := hs, txShaCalls := Suc (txShaCalls s)\<rparr>))))"
  by (simp add: Sha_def reading_def alloc_def split_beta split: sum.splits)

text \<open>
  Any hasher that returns \<open>H\<close> of the record on every pointer to an allocated
  record gives the same \<open>Sha\<close> on a handle that wraps a record or has its hash
  cached, whatever it does on \<^verbatim>\<open>nil\<close>.
\<close>

lemma Sha_contract:
  assumes "\<And>objs a. a < length objs \<Longrightarrow> TxSha objs (Some a) = Inr (H (objs ! a))"
    and "has_record s t \<or> txSha t \<noteq> None"
  shows "Sha TxSha s t = Sha (reading H) s t"
proof (cases "txSha t")
  case None
  with assms(2) obtain a where a: "msgTx t = Some a" "a < length (msgTxs s)"
    by (auto simp: has_record_def split: option.splits)
  from assms(1) [OF a(2)] reading_record [OF a(2), of H] a(1) None show ?thesis
    by (simp add: Sha_def)
next
  case (Some p)
  then show ?thesis by (simp add: Sha_def)
qed

subsection \<open>Steps and runs of a client\<close>

lemma step_cached:
  assumes "txSha t = Some p"
  shows "\<exists>r t' s'. step TxSha s t c = Inr (r, t', s') \<and> txSha t' = Some p
           \<and> shaHashes s' = shaHashes s \<and> txShaCalls s' = txShaCalls s
           \<and> (c = CallSha \<longrightarrow> r = RetPtr (Some p))"
  using assms by (cases c) (simp_all add: Sha_cached SetIndex_def)

lemma run_cached:
  assumes "txSha t = Some p"
  shows "\<exists>rs t' s'. run TxSha s t cs = Inr (rs, t', s') \<and> txSha t' = Some p
           \<and> shaHashes s' = shaHashes s \<and> txShaCalls s' = txShaCalls s
           \<and> length rs = length cs
           \<and> (\<forall>k < length cs. cs ! k = CallSha \<longrightarrow> rs ! k = RetPtr (Some p))"
  using assms
proof (induction cs arbitrary: s t)
  case Nil
  then show ?case by simp
next
  case (Cons c cs)
  from step_cached [OF Cons.prems, of TxSha s c] obtain r t1 s1 where
    st: "step TxSha s t c = Inr (r, t1, s1)" and c1: "txSha t1 = Some p"
    and h1: "shaHashes s1 = shaHashes s" and n1: "txShaCalls s1 = txShaCalls s"
    and r1: "c = CallSha \<longrightarrow> r = RetPtr (Some p)"
    by blast
  from Cons.IH [OF c1, of s1] obtain rs t2 s2 where
    rn: "run TxSha s1 t1 cs = Inr (rs, t2, s2)" and c2: "txSha t2 = Some p"
    and h2: "shaHashes s2 = shaHashes s1" and n2: "txShaCalls s2 = txShaCalls s1"
    and l2: "length rs = length cs"
    and r2: "\<forall>k < length cs. cs ! k = CallSha \<longrightarrow> rs ! k = RetPtr (Some p)"
    by blast
  have "run TxSha s t (c # cs) = Inr (r # rs, t2, s2)"
    using st rn by simp
  moreover have "\<forall>k < length (c # cs). (c # cs) ! k = CallSha \<longrightarrow> (r # rs) ! k = RetPtr (Some p)"
    using r1 r2 by (auto simp: nth_Cons split: nat.splits)
  ultimately show ?case
    using c2 h1 h2 n1 n2 l2 by simp
qed

lemma run_Sha_cached:
  "txSha t = Some p \<Longrightarrow>
   run TxSha s t (replicate n CallSha) = Inr (replicate n (RetPtr (Some p)), t, s)"
  by (induction n) (simp_all add: Sha_cached)

lemma step_frame:
  assumes "step TxSha s t c = Inr (r, t', s')"
  shows "msgTx t' = msgTx t \<and> serializedTx t' = serializedTx t
       \<and> length (msgTxs s') = length (msgTxs s)
       \<and> (txSha t \<noteq> None \<longrightarrow> txSha t' = txSha t)
       \<and> (c \<noteq> CallSha \<longrightarrow> txSha t' = txSha t)
       \<and> ((\<forall>i. c \<noteq> CallSetIndex i) \<longrightarrow> txIndex t' = txIndex t)"
proof (cases c)
  case CallSha
  with assms obtain p where "Sha TxSha s t = Inr (p, t', s')"
    by (auto split: sum.splits)
  from Sha_Inr_cases [OF this] show ?thesis
    using CallSha by auto
qed (insert assms, auto simp: SetIndex_def)

lemma step_calls:
  assumes "step TxSha s t c = Inr (r, t', s')"
  shows "(txSha t' = None \<longrightarrow> txShaCalls s' = txShaCalls s)
       \<and> txShaCalls s' \<le> Suc (txShaCalls s)"
proof (cases c)
  case CallSha
  with assms obtain p where "Sha TxSha s t = Inr (p, t', s')"
    by (auto split: sum.splits)
  from Sha_Inr_cases [OF this] show ?thesis
    by auto
qed (insert assms, auto simp: SetIndex_def)

lemma run_calls:
  "run TxSha s t cs = Inr (rs, t', s') \<Longrightarrow> txShaCalls s' \<le> Suc (txShaCalls s)"
proof (induction cs arbitrary: s t rs)
  case Nil
  then show ?case by simp
next
  case (Cons c cs)
  from Cons.prems obtain r t1 s1 rs1 where
    st: "step TxSha s t c = Inr (r, t1, s1)" and
    rn: "run TxSha s1 t1 cs = Inr (rs1, t', s')"
    by (auto split: sum.splits)
  show ?case
  proof (cases "txSha t1")
    case None
    with step_calls [OF st] have "txShaCalls s1 = txShaCalls s" by simp
    with Cons.IH [OF rn] show ?thesis by simp
  next
    case (Some p)
    from run_cached [OF Some, of TxSha s1 cs] rn
    have "txShaCalls s' = txShaCalls s1" by auto
    with step_calls [OF st] show ?thesis by simp
  qed
qed

lemma step_has_record:
  assumes "has_record s t"
  shows "\<exists>r t' s'. step (reading H) s t c = Inr (r, t', s') \<and> has_record s' t'"
proof (cases c)
  case CallSha
  show ?thesis
  proof (cases "txSha t")
    case None
    from assms obtain a where a: "msgTx t = Some a" "a < length (msgTxs s)"
      by (auto simp: has_record_def split: option.splits)
    from reading_record [OF a(2), of H] a(1)
    have "reading H (msgTxs s) (msgTx t) = Inr (fst (H (msgTxs s ! a)), snd (H (msgTxs s ! a)))"
      by simp
    from Sha_first [where TxSha = "reading H" and s = s and t = t, OF None this] show ?thesis
      using CallSha a by (simp add: has_record_def)
  next
    case (Some p)
    then show ?thesis using CallSha assms by (simp add: Sha_cached)
  qed
qed (insert assms, auto simp: has_record_def SetIndex_def split: option.splits)

lemma run_has_record:
  "has_record s t \<Longrightarrow>
   \<exists>rs t' s'. run (reading H) s t cs = Inr (rs, t', s') \<and> has_record s' t'
     \<and> length rs = length cs"
proof (induction cs arbitrary: s t)
  case Nil
  then show ?case by simp
next
  case (Cons c cs)
  from step_has_record [OF Cons.prems, of H c] obtain r t1 s1 where
    st: "step (reading H) s t c = Inr (r, t1, s1)" and hr: "has_record s1 t1"
    by blast
  from Cons.IH [OF hr] obtain rs t2 s2 where
    "run (reading H) s1 t1 cs = Inr (rs, t2, s2)" "has_record s2 t2" "length rs = length cs"
    by blast
  with st show ?case by simp
qed

lemma run_contract:
  assumes c: "\<And>objs a. a < length objs \<Longrightarrow> TxSha objs (Some a) = Inr (H (objs ! a))"
  shows "has_record s t \<or> txSha t \<noteq> None \<Longrightarrow> run TxSha s t cs = run (reading H) s t cs"
proof (induction cs arbitrary: s t)
  case Nil
  then show ?case by simp
next
  case (Cons x cs)
  have st: "step TxSha s t x = step (reading H) s t x"
    using Sha_contract [of TxSha H s t, OF c Cons.prems] by (cases x) simp_all
  have "\<exists>r t1 s1. step (reading H) s t x = Inr (r, t1, s1)
          \<and> (has_record s1 t1 \<or> txSha t1 \<noteq> None)"
  proof (cases "txSha t")
    case None
    with Cons.prems have "has_record s t" by simp
    from step_has_record [OF this, of H x] show ?thesis by blast
  next
    case (Some p)
    from step_cached [OF Some, of "reading H" s x] show ?thesis by auto
  qed
  then obtain r t1 s1 where
    s1: "step (reading H) s t x = Inr (r, t1, s1)" and ok: "has_record s1 t1 \<or> txSha t1 \<noteq> None"
    by blast
  from Cons.IH [OF ok] st s1 show ?case by simp
qed

lemma run_no_SetIndex:
  assumes "run TxSha s t cs = Inr (rs, t', s')" and "\<forall>i. CallSetIndex i \<notin> set cs"
  shows "txIndex t' = txIndex t
       \<and> (\<forall>k < length cs. cs ! k = CallIndex \<longrightarrow> rs ! k = RetInt (txIndex t))"
  using assms
proof (induction cs arbitrary: s t rs)
  case Nil
  then show ?case by simp
next
  case (Cons c cs)
  from Cons.prems(1) obtain r t1 s1 rs1 where
    st: "step TxSha s t c = Inr (r, t1, s1)" and
    rn: "run TxSha s1 t1 cs = Inr (rs1, t', s')" and
    rs: "rs = r # rs1"
    by (auto split: sum.splits)
  from Cons.prems(2) have c: "\<forall>i. c \<noteq> CallSetIndex i" and cs: "\<forall>i. CallSetIndex i \<notin> set cs"
    by auto
  from step_frame [OF st] c have i1: "txIndex t1 = txIndex t" by simp
  from st have r: "c = CallIndex \<longrightarrow> r = RetInt (txIndex t)"
    by (auto simp: Index_def)
  from Cons.IH [OF rn cs] i1 have
    "txIndex t' = txIndex t" and
    "\<forall>k < length cs. cs ! k = CallIndex \<longrightarrow> rs1 ! k = RetInt (txIndex t)"
    by simp_all
  with r rs show ?case
    by (auto simp: nth_Cons split: nat.splits)
qed

section \<open>Properties\<close>

text \<open>
  C1. Take a handle that wraps a record, or whose hash is already cached, and
  a hasher that reads the record through its receiver.  Call \<open>Sha\<close> on the
  handle \<open>n \<ge> 1\<close> times.  Every call returns, and returns the same pointer \<open>p\<close>;
  handle and memory after the \<open>n\<close> calls are what they were after the first, so
  the hash that \<open>p\<close> points to is the same each time.  If the cache was set, the
  first call returns it and changes nothing (no call of the hasher).  If it
  was unset, the first call runs the hasher once on the wrapped record, stores
  the hash, caches the pointer to it and returns that pointer.  Over any
  sequence of client steps on the handle that runs to its end, the hasher is
  called at most once.
\<close>

theorem Sha_idempotent:
  assumes ok: "has_record s t \<or> txSha t \<noteq> None" and n: "1 \<le> n"
  shows "\<exists>p t' s'.
           Sha (reading TxSha) s t = Inr (Some p, t', s')
         \<and> run (reading TxSha) s t (replicate n CallSha)
             = Inr (replicate n (RetPtr (Some p)), t', s')
         \<and> txSha t' = Some p
         \<and> (txSha t \<noteq> None \<longrightarrow> txSha t = Some p \<and> t' = t \<and> s' = s)
         \<and> (txSha t = None \<longrightarrow>
              t' = t\<lparr>txSha := Some p\<rparr> \<and> txShaCalls s' = Suc (txShaCalls s)
              \<and> (\<exists>m. load (msgTxs s) (msgTx t) = Inr m
                     \<and> load (shaHashes s') (Some p) = Inr (fst (TxSha m))))
         \<and> (\<forall>cs rs t'' s''. run (reading TxSha) s t cs = Inr (rs, t'', s'')
              \<longrightarrow> txShaCalls s'' \<le> Suc (txShaCalls s))"
proof (cases "txSha t")
  case (Some p)
  have "Sha (reading TxSha) s t = Inr (Some p, t, s)"
    using Some by (rule Sha_cached)
  moreover have "run (reading TxSha) s t (replicate n CallSha)
                   = Inr (replicate n (RetPtr (Some p)), t, s)"
    using Some by (rule run_Sha_cached)
  ultimately show ?thesis
    using Some run_calls [of "reading TxSha" s t] by auto
next
  case None
  with ok obtain a where a: "msgTx t = Some a" "a < length (msgTxs s)"
    by (auto simp: has_record_def split: option.splits)
  define p where "p = length (shaHashes s)"
  define t1 where "t1 = t\<lparr>txSha := Some p\<rparr>"
  define s1 where "s1 = s\<lparr>shaHashes := shaHashes s @ [fst (TxSha (msgTxs s ! a))],
                          txShaCalls := Suc (txShaCalls s)\<rparr>"
  from reading_record [OF a(2), of TxSha] a(1)
  have "reading TxSha (msgTxs s) (msgTx t)
          = Inr (fst (TxSha (msgTxs s ! a)), snd (TxSha (msgTxs s ! a)))"
    by simp
  from Sha_first [where TxSha = "reading TxSha" and s = s and t = t, OF None this]
  have first: "Sha (reading TxSha) s t = Inr (Some p, t1, s1)"
    by (simp add: p_def t1_def s1_def)
  have cached: "txSha t1 = Some p"
    by (simp add: t1_def)
  from n obtain k where k: "n = Suc k"
    by (cases n) auto
  have "run (reading TxSha) s1 t1 (replicate k CallSha)
          = Inr (replicate k (RetPtr (Some p)), t1, s1)"
    using cached by (rule run_Sha_cached)
  with first have many:
    "run (reading TxSha) s t (replicate n CallSha) = Inr (replicate n (RetPtr (Some p)), t1, s1)"
    by (simp add: k)
  have rec: "load (msgTxs s) (msgTx t) = Inr (msgTxs s ! a)"
    using a by (simp add: load_def)
  have hash: "load (shaHashes s1) (Some p) = Inr (fst (TxSha (msgTxs s ! a)))"
    by (simp add: load_def s1_def p_def)
  have calls: "txShaCalls s1 = Suc (txShaCalls s)"
    by (simp add: s1_def)
  show ?thesis
    using first many cached None rec hash calls run_calls [of "reading TxSha" s t]
    by (intro exI [of _ p] exI [of _ t1] exI [of _ s1]) (auto simp: t1_def)
qed

text \<open>Three calls on a fresh handle: one pointer, one hasher call.\<close>

theorem Sha_idempotent_witness:
  "has_record stub_memory (NewTx (Some 0)) \<and> (1::nat) \<le> 3
   \<and> run (reading stub_TxSha) stub_memory (NewTx (Some 0)) (replicate 3 CallSha)
       = Inr (replicate 3 (RetPtr (Some 0)),
              (NewTx (Some 0))\<lparr>txSha := Some 0\<rparr>,
              \<lparr>msgTxs = [5], shaHashes = [10], txShaCalls = 1\<rparr>)"
proof -
  have h: "has_record stub_memory (NewTx (Some 0)) \<or> txSha (NewTx (Some 0)) \<noteq> None"
    by (simp add: has_record_def stub_memory_def NewTx_def)
  have n: "(1::nat) \<le> 3" by simp
  have "Sha (reading stub_TxSha) stub_memory (NewTx (Some 0))
        = Inr (Some 0, (NewTx (Some 0))\<lparr>txSha := Some 0\<rparr>,
               \<lparr>msgTxs = [5], shaHashes = [10], txShaCalls = 1\<rparr>)"
    by (simp add: Sha_reading load_def alloc_def stub_memory_def stub_TxSha_def NewTx_def)
  with Sha_idempotent [OF h n, of stub_TxSha] h show ?thesis
    by (auto simp: NewTx_def)
qed

text \<open>
  C2. \<open>NewTxFromBytes\<close> returns the error \<open>err\<close> exactly when the codec returns
  \<open>err\<close> on the bytes of the slice: the codec's error, as it is.  It produces
  no handle exactly when the codec fails.
\<close>

theorem NewTxFromBytes_error:
  "(NewTxFromBytes Deserialize s b = Inl err) = (Deserialize (NewBuffer b) = Inl err)
   \<and> ((\<forall>t s'. NewTxFromBytes Deserialize s b \<noteq> Inr (t, s'))
        = (\<exists>e. Deserialize (NewBuffer b) = Inl e))"
  by (cases "Deserialize (NewBuffer b)") (auto simp: NewTxFromBytes_def alloc_def)

text \<open>The single byte \<open>0x00\<close>, which the concrete codec rejects.\<close>

theorem NewTxFromBytes_error_witness:
  "NewTxFromBytes stub_Deserialize stub_memory (Some [0]) = Inl ''unexpected EOF''
   \<and> (\<forall>t s'. NewTxFromBytes stub_Deserialize stub_memory (Some [0]) \<noteq> Inr (t, s'))"
proof -
  have "stub_Deserialize (NewBuffer (Some [0])) = Inl ''unexpected EOF''"
    by (simp add: stub_Deserialize_def NewBuffer_def)
  with NewTxFromBytes_error [of stub_Deserialize stub_memory "Some [0]" "''unexpected EOF''"]
  show ?thesis by blast
qed

text \<open>
  C3. If the codec decodes the bytes to the record \<open>R\<close>, then \<open>NewTxFromBytes\<close>
  returns a handle \<open>t\<close>; the pointer that \<open>MsgTx t\<close> returns points to \<open>R\<close>, so
  the hash of that record is the hash of \<open>R\<close>; and \<open>Sha\<close> on the handle, with a
  hasher that reads the record through its receiver, returns a pointer to the
  hash that the hasher computes for \<open>R\<close>.
\<close>

theorem NewTxFromBytes_round_trip:
  assumes "Deserialize (NewBuffer b) = Inr R"
  shows "\<exists>t s1 p t' s2.
           NewTxFromBytes Deserialize s b = Inr (t, s1)
         \<and> load (msgTxs s1) (MsgTx t) = Inr R
         \<and> (case load (msgTxs s1) (MsgTx t) of
              Inl f \<Rightarrow> False
            | Inr m \<Rightarrow> fst (TxSha m) = fst (TxSha R))
         \<and> Sha (reading TxSha) s1 t = Inr (Some p, t', s2)
         \<and> load (shaHashes s2) (Some p) = Inr (fst (TxSha R))"
  using assms
  by (simp add: NewTxFromBytes_def alloc_def MsgTx_def Sha_reading load_def)

text \<open>Three bytes, decoded to the record \<open>3\<close> with hash \<open>6\<close>.\<close>

theorem NewTxFromBytes_round_trip_witness:
  "stub_Deserialize (NewBuffer (Some [1, 2, 3])) = Inr 3
   \<and> (\<exists>t s1 p t' s2.
         NewTxFromBytes stub_Deserialize stub_memory (Some [1, 2, 3]) = Inr (t, s1)
       \<and> load (msgTxs s1) (MsgTx t) = Inr 3
       \<and> Sha (reading stub_TxSha) s1 t = Inr (Some p, t', s2)
       \<and> load (shaHashes s2) (Some p) = Inr 6)"
proof -
  have h: "stub_Deserialize (NewBuffer (Some [1, 2, 3])) = Inr 3"
    by (simp add: stub_Deserialize_def NewBuffer_def)
  from NewTxFromBytes_round_trip [where Deserialize = stub_Deserialize and TxSha = stub_TxSha
                                  and s = stub_memory, OF h] h
  show ?thesis
    by (simp add: stub_TxSha_def) blast
qed

text \<open>
  C4. Once the hash of a handle is cached, whatever the hasher, any sequence
  of client steps
  (\<open>Sha\<close>, \<open>MsgTx\<close>, \<open>Index\<close>, \<open>SetIndex\<close>, and writes of external code to the
  records in memory) runs to its end without a panic and leaves the cached
  pointer as it was, the hash objects as they were, and the number of hasher
  calls as it was; every \<open>Sha\<close> among the steps returns the cached pointer.
\<close>

theorem cached_hash_fixed:
  assumes "txSha t = Some p"
  shows "\<exists>rs t' s'.
           run TxSha s t cs = Inr (rs, t', s')
         \<and> txSha t' = Some p
         \<and> shaHashes s' = shaHashes s
         \<and> txShaCalls s' = txShaCalls s
         \<and> (\<forall>k < length cs. cs ! k = CallSha \<longrightarrow> rs ! k = RetPtr (Some p))"
  using run_cached [OF assms, of TxSha s cs] by blast

text \<open>A cached hash survives a write to the record and a change of the index.\<close>

theorem cached_hash_fixed_witness:
  "txSha \<lparr>msgTx = Some 0, serializedTx = None, txSha = Some 0, txIndex = - 1\<rparr> = Some 0
   \<and> (\<exists>rs t' s'.
         run (reading stub_TxSha) \<lparr>msgTxs = [5], shaHashes = [10], txShaCalls = 1\<rparr>
             \<lparr>msgTx = Some 0, serializedTx = None, txSha = Some 0, txIndex = - 1\<rparr>
             [ExternalWrite 0 9, CallSha, CallSetIndex 3, CallIndex, CallMsgTx, CallSha]
           = Inr (rs, t', s')
       \<and> txSha t' = Some 0 \<and> shaHashes s' = [10] \<and> txShaCalls s' = 1 \<and> msgTxs s' = [9]
       \<and> rs ! 1 = RetPtr (Some 0) \<and> rs ! 5 = RetPtr (Some 0))"
proof -
  have h: "txSha \<lparr>msgTx = Some 0, serializedTx = None, txSha = Some 0, txIndex = - 1\<rparr> = Some 0"
    by simp
  from cached_hash_fixed [OF h, of "reading stub_TxSha" "\<lparr>msgTxs = [5], shaHashes = [10], txShaCalls = 1\<rparr>"
         "[ExternalWrite 0 9, CallSha, CallSetIndex 3, CallIndex, CallMsgTx, CallSha]"]
  show ?thesis
    by (simp add: Sha_def SetIndex_def Index_def MsgTx_def)
qed

text \<open>
  C5, as stated: every operation other than \<open>SetIndex\<close> leaves every field of
  the handle unchanged.  It fails for the first \<open>Sha\<close> on a fresh handle, which
  sets the cached hash.
\<close>

theorem Sha_fills_cache_counterexample:
  "step (reading stub_TxSha) stub_memory (NewTx (Some 0)) CallSha
     = Inr (RetPtr (Some 0),
            (NewTx (Some 0))\<lparr>txSha := Some 0\<rparr>,
            \<lparr>msgTxs = [5], shaHashes = [10], txShaCalls = 1\<rparr>)
   \<and> txSha ((NewTx (Some 0))\<lparr>txSha := Some 0\<rparr>) \<noteq> txSha (NewTx (Some 0))"
  by (simp add: Sha_reading load_def alloc_def stub_TxSha_def stub_memory_def NewTx_def)

text \<open>
  C5, amended.  No step changes the record pointer or the serialized bytes.
  \<open>SetIndex\<close> changes the index and nothing else, and no other step changes the
  index.  \<open>Sha\<close> changes the cached hash and nothing else, and only when it is
  unset, from unset to set; no other step changes the cached hash.  Every other
  step leaves the handle as it is.
\<close>

theorem fields_frame:
  assumes "step TxSha s t c = Inr (r, t', s')"
  shows "msgTx t' = msgTx t \<and> serializedTx t' = serializedTx t
       \<and> ((\<forall>i. c \<noteq> CallSetIndex i) \<longrightarrow> txIndex t' = txIndex t)
       \<and> (c \<noteq> CallSha \<or> txSha t \<noteq> None \<longrightarrow> txSha t' = txSha t)
       \<and> (\<forall>i. c = CallSetIndex i \<longrightarrow> t' = t\<lparr>txIndex := i\<rparr>)
       \<and> (c = CallSha \<and> txSha t = None \<longrightarrow> (\<exists>a. t' = t\<lparr>txSha := Some a\<rparr>))
       \<and> (c \<noteq> CallSha \<and> (\<forall>i. c \<noteq> CallSetIndex i) \<longrightarrow> t' = t)"
proof -
  have "\<forall>i. c = CallSetIndex i \<longrightarrow> t' = t\<lparr>txIndex := i\<rparr>"
    using assms by (auto simp: SetIndex_def)
  moreover have "c = CallSha \<and> txSha t = None \<longrightarrow> (\<exists>a. t' = t\<lparr>txSha := Some a\<rparr>)"
  proof
    assume c: "c = CallSha \<and> txSha t = None"
    with assms obtain p where "Sha TxSha s t = Inr (p, t', s')"
      by (auto split: sum.splits)
    from Sha_Inr_cases [OF this] c show "\<exists>a. t' = t\<lparr>txSha := Some a\<rparr>"
      by auto
  qed
  moreover have "c \<noteq> CallSha \<and> (\<forall>i. c \<noteq> CallSetIndex i) \<longrightarrow> t' = t"
    using assms by (cases c) auto
  ultimately show ?thesis
    using step_frame [OF assms] by blast
qed

text \<open>\<open>SetIndex\<close> and the first \<open>Sha\<close> on a fresh handle.\<close>

theorem fields_frame_witness:
  "step (reading stub_TxSha) stub_memory (NewTx (Some 0)) (CallSetIndex 3)
     = Inr (RetUnit, (NewTx (Some 0))\<lparr>txIndex := 3\<rparr>, stub_memory)
   \<and> msgTx ((NewTx (Some 0))\<lparr>txIndex := 3\<rparr>) = msgTx (NewTx (Some 0))
   \<and> serializedTx ((NewTx (Some 0))\<lparr>txIndex := 3\<rparr>) = serializedTx (NewTx (Some 0))
   \<and> txSha ((NewTx (Some 0))\<lparr>txIndex := 3\<rparr>) = txSha (NewTx (Some 0))
   \<and> step (reading stub_TxSha) stub_memory (NewTx (Some 0)) CallSha
     = Inr (RetPtr (Some 0), (NewTx (Some 0))\<lparr>txSha := Some 0\<rparr>,
            \<lparr>msgTxs = [5], shaHashes = [10], txShaCalls = 1\<rparr>)
   \<and> txIndex ((NewTx (Some 0))\<lparr>txSha := Some 0\<rparr>) = txIndex (NewTx (Some 0))"
proof -
  have h: "step (reading stub_TxSha) stub_memory (NewTx (Some 0)) (CallSetIndex 3)
     = Inr (RetUnit, (NewTx (Some 0))\<lparr>txIndex := 3\<rparr>, stub_memory)"
    by (simp add: SetIndex_def)
  have k: "step (reading stub_TxSha) stub_memory (NewTx (Some 0)) CallSha
     = Inr (RetPtr (Some 0), (NewTx (Some 0))\<lparr>txSha := Some 0\<rparr>,
            \<lparr>msgTxs = [5], shaHashes = [10], txShaCalls = 1\<rparr>)"
    by (simp add: Sha_reading load_def alloc_def stub_TxSha_def stub_memory_def NewTx_def)
  from fields_frame [OF h] fields_frame [OF k] h k show ?thesis
    by simp
qed

text \<open>
  C6. When \<open>NewTxFromBytes\<close> succeeds, the codec has decoded the bytes to a
  record \<open>R\<close>; the new handle points to \<open>R\<close>, which is the one object added to
  memory; it keeps the input slice as it was given; its index is
  \<open>TxIndexUnknown\<close>; its cached hash is unset.
\<close>

theorem NewTxFromBytes_success:
  assumes "NewTxFromBytes Deserialize s b = Inr (t, s')"
  shows "\<exists>R. Deserialize (NewBuffer b) = Inr R
            \<and> load (msgTxs s') (msgTx t) = Inr R
            \<and> serializedTx t = b
            \<and> txIndex t = TxIndexUnknown
            \<and> txSha t = None
            \<and> s' = s\<lparr>msgTxs := msgTxs s @ [R]\<rparr>"
  using assms
  by (cases "Deserialize (NewBuffer b)") (auto simp: NewTxFromBytes_def alloc_def load_def)

text \<open>The handle and the memory that three bytes give.\<close>

theorem NewTxFromBytes_success_witness:
  "NewTxFromBytes stub_Deserialize stub_memory (Some [1, 2, 3])
     = Inr (\<lparr>msgTx = Some 1, serializedTx = Some [1, 2, 3], txSha = None,
              txIndex = TxIndexUnknown\<rparr>,
            \<lparr>msgTxs = [5, 3], shaHashes = [], txShaCalls = 0\<rparr>)
   \<and> load [5, 3] (Some 1) = Inr (3::nat)"
proof -
  have h: "NewTxFromBytes stub_Deserialize stub_memory (Some [1, 2, 3])
     = Inr (\<lparr>msgTx = Some 1, serializedTx = Some [1, 2, 3], txSha = None,
              txIndex = TxIndexUnknown\<rparr>,
            (\<lparr>msgTxs = [5, 3], shaHashes = [], txShaCalls = 0\<rparr> :: (nat, nat) memory))"
    by (simp add: NewTxFromBytes_def stub_Deserialize_def NewBuffer_def alloc_def stub_memory_def)
  from NewTxFromBytes_success [OF h] h show ?thesis
    by (auto simp: stub_Deserialize_def NewBuffer_def)
qed

text \<open>
  C7. \<open>NewTx\<close> has no error result: it returns the handle that wraps the given
  pointer, with index \<open>TxIndexUnknown\<close> and with cached hash and serialized
  bytes unset.  A handle fresh from \<open>NewTx\<close> or from \<open>NewTxFromBytes\<close> reports
  \<open>TxIndexUnknown\<close> from \<open>Index\<close>, and keeps doing so over any client steps
  without a \<open>SetIndex\<close> among them.
\<close>

theorem NewTx_fresh:
  "NewTx p = \<lparr>msgTx = p, serializedTx = None, txSha = None, txIndex = TxIndexUnknown\<rparr>
   \<and> MsgTx (NewTx p) = p
   \<and> Index (NewTx p) = TxIndexUnknown
   \<and> (NewTxFromBytes Deserialize s0 b = Inr (t, s) \<longrightarrow> Index t = TxIndexUnknown)
   \<and> ((t = NewTx p \<or> NewTxFromBytes Deserialize s0 b = Inr (t, s))
        \<and> (\<forall>i. CallSetIndex i \<notin> set cs)
        \<and> run TxSha s t cs = Inr (rs, t', s')
      \<longrightarrow> Index t' = TxIndexUnknown
          \<and> (\<forall>k < length cs. cs ! k = CallIndex \<longrightarrow> rs ! k = RetInt TxIndexUnknown))"
proof -
  have new: "txIndex (NewTx p) = TxIndexUnknown"
    by (simp add: NewTx_def)
  have bytes: "txIndex t = TxIndexUnknown" if "NewTxFromBytes Deserialize s0 b = Inr (t, s)"
    using that
    by (cases "Deserialize (NewBuffer b)") (auto simp: NewTxFromBytes_def alloc_def)
  have "Index t' = TxIndexUnknown
        \<and> (\<forall>k < length cs. cs ! k = CallIndex \<longrightarrow> rs ! k = RetInt TxIndexUnknown)"
    if "t = NewTx p \<or> NewTxFromBytes Deserialize s0 b = Inr (t, s)"
      and "\<forall>i. CallSetIndex i \<notin> set cs" and "run TxSha s t cs = Inr (rs, t', s')"
  proof -
    from that(1) new bytes have "txIndex t = TxIndexUnknown" by auto
    with run_no_SetIndex [OF that(3) that(2)] show ?thesis
      by (simp add: Index_def)
  qed
  with new bytes show ?thesis
    by (simp add: NewTx_def MsgTx_def Index_def)
qed

text \<open>A fresh handle, read before and after its hash is computed.\<close>

theorem NewTx_fresh_witness:
  "run (reading stub_TxSha) stub_memory (NewTx (Some 0))
       [CallIndex, CallSha, CallMsgTx, CallIndex]
     = Inr ([RetInt TxIndexUnknown, RetPtr (Some 0), RetPtr (Some 0), RetInt TxIndexUnknown],
            \<lparr>msgTx = Some 0, serializedTx = None, txSha = Some 0, txIndex = TxIndexUnknown\<rparr>,
            \<lparr>msgTxs = [5], shaHashes = [10], txShaCalls = 1\<rparr>)
   \<and> Index \<lparr>msgTx = Some 0, serializedTx = None, txSha = Some 0, txIndex = TxIndexUnknown\<rparr>
       = TxIndexUnknown"
proof -
  have r: "run (reading stub_TxSha) stub_memory (NewTx (Some 0))
               [CallIndex, CallSha, CallMsgTx, CallIndex]
     = Inr ([RetInt TxIndexUnknown, RetPtr (Some 0), RetPtr (Some 0), RetInt TxIndexUnknown],
            \<lparr>msgTx = Some 0, serializedTx = None, txSha = Some 0, txIndex = TxIndexUnknown\<rparr>,
            \<lparr>msgTxs = [5], shaHashes = [10], txShaCalls = 1\<rparr>)"
    by (simp add: Sha_reading load_def alloc_def stub_memory_def stub_TxSha_def NewTx_def
                  Index_def MsgTx_def)
  have c: "\<forall>i. CallSetIndex i \<notin> set [CallIndex, CallSha, CallMsgTx, CallIndex :: nat call]"
    by simp
  from NewTx_fresh [of "Some 0" stub_Deserialize stub_memory None "NewTx (Some 0)" stub_memory
                       "[CallIndex, CallSha, CallMsgTx, CallIndex]" "reading stub_TxSha"] r c
  show ?thesis by blast
qed

text \<open>
  C8. For every handle and every integer \<open>i\<close>, the sentinel and the other
  negative values included, \<open>SetIndex\<close> overwrites \<open>txIndex\<close> with \<open>i\<close> whatever
  it held, touches nothing else, has no error result, and \<open>Index\<close> then
  returns exactly \<open>i\<close>.
\<close>

theorem SetIndex_Index:
  "Index (SetIndex t i) = i \<and> SetIndex t i = t\<lparr>txIndex := i\<rparr>
   \<and> step TxSha s t (CallSetIndex i) = Inr (RetUnit, t\<lparr>txIndex := i\<rparr>, s)
   \<and> step TxSha s (t\<lparr>txIndex := i\<rparr>) CallIndex = Inr (RetInt i, t\<lparr>txIndex := i\<rparr>, s)"
  by (simp add: Index_def SetIndex_def)

text \<open>The sentinel and another negative value, stored over an index already set.\<close>

theorem SetIndex_Index_witness:
  "Index (SetIndex (SetIndex (NewTx None) 3) TxIndexUnknown) = - 1
   \<and> Index (SetIndex (SetIndex (NewTx None) 3) (- 7)) = - 7
   \<and> sint (- 7 :: go_int) = - 7"
  using SetIndex_Index [of "SetIndex (NewTx None) 3" TxIndexUnknown]
        SetIndex_Index [of "SetIndex (NewTx None) 3" "- 7"]
  by (simp add: TxIndexUnknown_def)

text \<open>
  C9. On a handle that wraps a record, with a hasher that reads the record
  through its receiver, \<open>Sha\<close> returns; \<open>Index\<close> and \<open>SetIndex\<close> return; and every
  sequence of client steps runs to its end with one result per step.  \<open>Sha\<close>
  drops the error that the hasher may report: it behaves as with a hasher that
  reports none, and does so with any hasher.
\<close>

theorem accessors_infallible:
  assumes "has_record s t"
  shows "(\<exists>p t' s'. Sha (reading TxSha) s t = Inr (p, t', s'))
       \<and> step (reading TxSha) s t CallIndex = Inr (RetInt (Index t), t, s)
       \<and> step (reading TxSha) s t (CallSetIndex i) = Inr (RetUnit, SetIndex t i, s)
       \<and> (\<exists>rs t' s'. run (reading TxSha) s t cs = Inr (rs, t', s') \<and> length rs = length cs)
       \<and> Sha (reading TxSha) s t = Sha (reading (\<lambda>m. (fst (TxSha m), None))) s t
       \<and> Sha G s t
           = Sha (\<lambda>objs p. case G objs p of Inl f \<Rightarrow> Inl f | Inr (h, e) \<Rightarrow> Inr (h, None)) s t"
proof -
  from step_has_record [OF assms, of TxSha CallSha]
  have "\<exists>p t' s'. Sha (reading TxSha) s t = Inr (p, t', s')"
    by (auto split: sum.splits)
  moreover from run_has_record [OF assms, of TxSha cs]
  have "\<exists>rs t' s'. run (reading TxSha) s t cs = Inr (rs, t', s') \<and> length rs = length cs"
    by blast
  moreover have "Sha (reading TxSha) s t = Sha (reading (\<lambda>m. (fst (TxSha m), None))) s t"
    by (simp add: Sha_reading split: sum.splits)
  moreover have "Sha G s t
      = Sha (\<lambda>objs p. case G objs p of Inl f \<Rightarrow> Inl f | Inr (h, e) \<Rightarrow> Inr (h, None)) s t"
    by (simp add: Sha_def split: sum.splits prod.splits)
  ultimately show ?thesis by simp
qed

text \<open>A hasher that reports an error on every call.\<close>

theorem accessors_infallible_witness:
  "has_record stub_memory (NewTx (Some 0))
   \<and> Sha (reading failing_TxSha) stub_memory (NewTx (Some 0))
       = Sha (reading (\<lambda>m. (fst (failing_TxSha m), None))) stub_memory (NewTx (Some 0))
   \<and> (\<exists>rs t' s'. run (reading failing_TxSha) stub_memory (NewTx (Some 0))
                      [CallSha, CallSetIndex 4, CallIndex] = Inr (rs, t', s')
                  \<and> length rs = 3)"
proof -
  have h: "has_record stub_memory (NewTx (Some 0))"
    by (simp add: has_record_def stub_memory_def NewTx_def)
  have l: "length [CallSha, CallSetIndex 4, CallIndex :: nat call] = 3"
    by simp
  from accessors_infallible [OF h, of failing_TxSha 4 "[CallSha, CallSetIndex 4, CallIndex]"] h
  show ?thesis unfolding l by blast
qed

text \<open>
  C10. \<open>NewTx\<close> does not look at its argument: given \<^verbatim>\<open>nil\<close> it returns a handle
  whose record pointer is \<^verbatim>\<open>nil\<close>.  \<open>Sha\<close> does not look at the record pointer
  either: on a handle with a \<^verbatim>\<open>nil\<close> record and no cached hash it calls the
  hasher on the \<^verbatim>\<open>nil\<close> receiver, and panics exactly as the hasher does there.
  So, for a hasher that dereferences its receiver (the hypothesis on
  btcwire's \<open>TxSha\<close>), \<open>Sha\<close> on such a handle is a nil pointer dereference.
  For a hasher that reads the record through its receiver, \<open>Sha\<close> dereferences
  \<^verbatim>\<open>nil\<close> exactly when the record pointer is \<^verbatim>\<open>nil\<close> and no hash is cached, and
  on a handle that wraps a record it returns.
\<close>

theorem Sha_nil_record:
  assumes "TxSha (msgTxs s) None = Inl NilPointerDereference"
  shows "msgTx (NewTx None) = None
       \<and> Sha TxSha s (NewTx None) = Inl NilPointerDereference
       \<and> (msgTx t = None \<and> txSha t = None \<longrightarrow> Sha TxSha s t = Inl NilPointerDereference)
       \<and> (msgTx t = None \<and> txSha t = None \<longrightarrow>
            (\<forall>G f. (Sha G s t = Inl f) = (G (msgTxs s) None = Inl f)))
       \<and> (Sha (reading H) s t = Inl NilPointerDereference) = (msgTx t = None \<and> txSha t = None)
       \<and> (has_record s t \<longrightarrow> (\<exists>p t' s'. Sha (reading H) s t = Inr (Some p, t', s')))"
proof -
  have new: "msgTx (NewTx None) = None" "txSha (NewTx None) = None"
    by (simp_all add: NewTx_def)
  have a: "Sha TxSha s (NewTx None) = Inl NilPointerDereference"
    using Sha_panic [of "NewTx None" TxSha s NilPointerDereference] new assms by simp
  have b: "msgTx t = None \<and> txSha t = None \<longrightarrow> Sha TxSha s t = Inl NilPointerDereference"
    using Sha_panic [of t TxSha s NilPointerDereference] assms by simp
  have c: "msgTx t = None \<and> txSha t = None \<longrightarrow>
            (\<forall>G f. (Sha G s t = Inl f) = (G (msgTxs s) None = Inl f))"
    by (auto simp: Sha_def alloc_def split: sum.splits)
  have d: "(Sha (reading H) s t = Inl NilPointerDereference) = (msgTx t = None \<and> txSha t = None)"
    by (auto simp: Sha_reading load_def alloc_def split: option.splits if_splits)
  have e: "has_record s t \<longrightarrow> (\<exists>p t' s'. Sha (reading H) s t = Inr (Some p, t', s'))"
    by (auto simp: Sha_reading load_def alloc_def has_record_def split: option.splits)
  from new(1) a b c d e show ?thesis by blast
qed

text \<open>
  A hasher that reads its receiver, on a handle around \<^verbatim>\<open>nil\<close> and on a handle
  around the record at address \<open>0\<close>; and, on the handle around \<^verbatim>\<open>nil\<close>, the
  hasher that does not look at its receiver, with which \<open>Sha\<close> returns.
\<close>

theorem Sha_nil_record_witness:
  "reading stub_TxSha (msgTxs stub_memory) None = Inl NilPointerDereference
   \<and> Sha (reading stub_TxSha) stub_memory (NewTx None) = Inl NilPointerDereference
   \<and> has_record stub_memory (NewTx (Some 0))
   \<and> (\<exists>p t' s'. Sha (reading stub_TxSha) stub_memory (NewTx (Some 0)) = Inr (Some p, t', s'))
   \<and> Sha constant_TxSha stub_memory (NewTx None)
       = Inr (Some 0, (NewTx None)\<lparr>txSha := Some 0\<rparr>,
              \<lparr>msgTxs = [5], shaHashes = [0], txShaCalls = 1\<rparr>)"
proof -
  have n: "reading stub_TxSha (msgTxs stub_memory) None = Inl NilPointerDereference"
    by (rule reading_nil)
  have h: "has_record stub_memory (NewTx (Some 0))"
    by (simp add: has_record_def stub_memory_def NewTx_def)
  have k: "Sha constant_TxSha stub_memory (NewTx None)
       = Inr (Some 0, (NewTx None)\<lparr>txSha := Some 0\<rparr>,
              \<lparr>msgTxs = [5], shaHashes = [0], txShaCalls = 1\<rparr>)"
    by (simp add: Sha_def alloc_def constant_TxSha_def stub_memory_def NewTx_def)
  from Sha_nil_record [where TxSha = "reading stub_TxSha" and s = stub_memory
                          and t = "NewTx (Some 0)" and H = stub_TxSha, OF n] n h k
  show ?thesis by blast
qed

end
